theory Spec2Isabelle
  imports Complex_Main "HOL-Library.Sublist" "HOL-Library.Product_Lexorder"
begin

section \<open>Python strings\<close>

text \<open>
  A Python \<open>str\<close> is a sequence of code points. The embedding reads a \<^typ>\<open>char\<close> as one
  code point in the range 0..255; text with code points beyond that range is outside the
  model. \<open>is_space\<close> is \<open>str.isspace\<close> on that range (the characters \<open>str.split()\<close> splits
  at), \<open>lower_char\<close> is \<open>str.lower\<close> on one character of that range.
\<close>

definition is_space :: "char \<Rightarrow> bool" where
  "is_space c =
     (let n = (of_char c :: nat)
      in (9 \<le> n \<and> n \<le> 13) \<or> (28 \<le> n \<and> n \<le> 32) \<or> n = 133 \<or> n = 160)"

definition lower_char :: "char \<Rightarrow> char" where
  "lower_char c =
     (let n = (of_char c :: nat)
      in if (65 \<le> n \<and> n \<le> 90) \<or> (192 \<le> n \<and> n \<le> 222 \<and> n \<noteq> 215)
         then char_of (n + 32) else c)"

definition lower :: "string \<Rightarrow> string" where
  "lower s = map lower_char s"

text \<open>
  \<open>text.replace(old, new)\<close>: scanning from the left, every occurrence of \<open>old\<close> that does
  not overlap an earlier one is replaced. With an empty \<open>old\<close>, Python puts \<open>new\<close> before
  every character and at the end.
\<close>

fun replace_scan :: "string \<Rightarrow> string \<Rightarrow> string \<Rightarrow> string" where
  "replace_scan old new [] = []"
| "replace_scan old new (c # cs) =
     (if old \<noteq> [] \<and> take (length old) (c # cs) = old
      then new @ replace_scan old new (drop (length old - 1) cs)
      else c # replace_scan old new cs)"

definition replace :: "string \<Rightarrow> string \<Rightarrow> string \<Rightarrow> string" where
  "replace old new text =
     (if old = [] then new @ concat (map (\<lambda>c. c # new) text)
      else replace_scan old new text)"

text \<open>\<open>sep.join(words)\<close>.\<close>

fun join :: "string \<Rightarrow> string list \<Rightarrow> string" where
  "join sep [] = []"
| "join sep [w] = w"
| "join sep (w # ws) = w @ sep @ join sep ws"

text \<open>
  \<open>text.split()\<close> with no separator: the maximal runs of non-whitespace characters, in
  order. \<open>split_scan cur s\<close> scans \<open>s\<close> with the word under construction in \<open>cur\<close>.
\<close>

fun split_scan :: "string \<Rightarrow> string \<Rightarrow> string list" where
  "split_scan cur [] = (if cur = [] then [] else [cur])"
| "split_scan cur (c # cs) =
     (if is_space c
      then (if cur = [] then split_scan [] cs else cur # split_scan [] cs)
      else split_scan (cur @ [c]) cs)"

definition split :: "string \<Rightarrow> string list" where
  "split s = split_scan [] s"

section \<open>Preprocessing: cleaning\<close>

text \<open>
  A Python \<open>dict\<close> iterated with \<open>items()\<close> is read as the list of its entries in
  insertion order.
\<close>

type_synonym str_dict = "(string \<times> string) list"

definition token_lookup :: str_dict where
  "token_lookup =
     [(''.'', '' <PERIOD> ''),
      (''!'', '' <EXCLAMATION_MARK> ''),
      (''?'', '' <QUESTION_MARK> ''),
      ('','', '' <COMMA> ''),
      ([CHR 0x22], '' <QUOTATION_MARK> ''),
      ('';'', '' <SEMICOLON> ''),
      (''('', '' <LEFT_PAREN> ''),
      ('')'', '' <RIGHT_PAREN> ''),
      (''-'', '' <DASH> ''),
      (''???'', '' <DASH> ''),
      ([CHR 0x0A], '' <NEW_LINE> '')]"

definition replace_all :: "str_dict \<Rightarrow> string \<Rightarrow> string" where
  "replace_all special_tokens_dict text =
     fold (\<lambda>(k, v) t. replace k v t) special_tokens_dict text"

definition clean_text :: "string \<Rightarrow> str_dict \<Rightarrow> string" where
  "clean_text text special_tokens_dict =
     lower (join '' '' (split (replace_all special_tokens_dict text)))"

section \<open>Preprocessing: vocabulary\<close>

text \<open>
  \<open>collections.Counter\<close> is a \<open>dict\<close> of counts: a key met for the first time is entered
  at the end with count 1, a key met again has its count raised in place. It is read as the
  list of its entries in insertion order. \<open>word_counter[w] += 1\<close> is \<open>counter_incr w\<close>
  (a missing key counts as 0).
\<close>

type_synonym 'a counter = "('a \<times> nat) list"

fun counter_incr :: "'a \<Rightarrow> 'a counter \<Rightarrow> 'a counter" where
  "counter_incr w [] = [(w, 1)]"
| "counter_incr w ((k, cnt) # kcs) =
     (if k = w then (k, cnt + 1) # kcs else (k, cnt) # counter_incr w kcs)"

definition Counter :: "'a list \<Rightarrow> 'a counter" where
  "Counter xs = fold counter_incr xs []"

definition counter_get :: "'a counter \<Rightarrow> 'a \<Rightarrow> int" where
  "counter_get word_counter w =
     (case map_of word_counter w of Some cnt \<Rightarrow> int cnt | None \<Rightarrow> 0)"

definition filter_text :: "string \<Rightarrow> string list" where
  "filter_text text =
     (let tokens = split text;
          word_counter = Counter tokens;
          trimmed_words = map fst (filter (\<lambda>(w, cnt). cnt > 3) word_counter)
      in filter (\<lambda>t. t \<in> set trimmed_words) tokens)"

definition PAD :: string where
  "PAD = ''<PAD>''"

text \<open>
  \<open>sorted(word_counter, key=word_counter.get, reverse=True)\<close> sorts the keys of the counter
  by falling count. Python's sort is stable, also with \<open>reverse=True\<close>: keys of equal count
  stay in the order of the counter. \<^const>\<open>sort_key\<close> is a stable insertion sort, here on
  the negated count.
\<close>

definition sorted_words :: "string list \<Rightarrow> string list" where
  "sorted_words text =
     (let word_counter = counter_incr PAD (Counter text)
      in sort_key (\<lambda>w. - counter_get word_counter w) (map fst word_counter))"

text \<open>A dict comprehension enters its items one after the other; a later item wins.\<close>

definition dict_of_items :: "('k \<times> 'v) list \<Rightarrow> ('k \<rightharpoonup> 'v)" where
  "dict_of_items items = fold (\<lambda>(k, v) m. m(k \<mapsto> v)) items Map.empty"

definition create_lookup_tables :: "string list \<Rightarrow> (string \<rightharpoonup> nat) \<times> (nat \<rightharpoonup> string)" where
  "create_lookup_tables text =
     (let int_to_vocab_items = enumerate 0 (sorted_words text);
          int_to_vocab = dict_of_items int_to_vocab_items;
          vocab_to_int = dict_of_items (map (\<lambda>(ii, word). (word, ii)) int_to_vocab_items)
      in (vocab_to_int, int_to_vocab))"

datatype error =
    KeyError
  | IndexError
  | TopkOutOfRange
  | ProbabilitiesNaN
  | ProbabilitiesNegative
  | OverflowError

fun lookup_all :: "('k \<rightharpoonup> 'v) \<Rightarrow> 'k list \<Rightarrow> error + 'v list" where
  "lookup_all d [] = Inr []"
| "lookup_all d (w # ws) =
     (case d w of
        None \<Rightarrow> Inl KeyError
      | Some v \<Rightarrow> (case lookup_all d ws of Inl e \<Rightarrow> Inl e | Inr vs \<Rightarrow> Inr (v # vs)))"

text \<open>
  \<open>preprocess_and_save_data\<close>, from the concatenated text of the data directory to the
  tuple it pickles.
\<close>

definition preprocess_and_save_data ::
  "string \<Rightarrow> error + (nat list \<times> (string \<rightharpoonup> nat) \<times> (nat \<rightharpoonup> string) \<times> str_dict)" where
  "preprocess_and_save_data all_text_data =
     (let special_tokens_dict = token_lookup;
          cleaned_text = clean_text all_text_data special_tokens_dict;
          tokens = filter_text cleaned_text;
          (vocab_to_int, int_to_vocab) = create_lookup_tables tokens
      in case lookup_all vocab_to_int tokens of
           Inl e \<Rightarrow> Inl e
         | Inr int_text \<Rightarrow> Inr (int_text, vocab_to_int, int_to_vocab, special_tokens_dict))"

section \<open>Generation\<close>

text \<open>
  The network is a parameter \<open>rnn\<close>: from the window of ids to the list of scores, one per
  output id; it answers every window. \<open>F.softmax\<close>, which \<open>generate\<close> applies to the scores,
  is a parameter \<open>softmax\<close>: it works in floating point, where it can return exactly 0 and 1,
  and \<open>softmax_like\<close> is what it grants on scores that are numbers: as many probabilities
  as scores, none negative, one at least positive. Probabilities are real numbers.

  \<open>p.topk(k)\<close> gives the \<open>k\<close> largest entries in falling order with their indices and fails
  when the list has fewer than \<open>k\<close> entries. The library does not fix the order of equal
  entries: \<open>ties p i\<close> is a parameter, the rank of index \<open>i\<close> among the entries of \<open>p\<close> equal
  to its own (the lower rank first, the lower index first at equal rank). \<open>top_k\<close> is the
  constant that \<open>generate\<close> sets in its loop.
\<close>

type_synonym predictor = "nat list \<Rightarrow> real list"

type_synonym tie_order = "real list \<Rightarrow> nat \<Rightarrow> nat"

definition softmax_like :: "(real list \<Rightarrow> real list) \<Rightarrow> bool" where
  "softmax_like softmax \<longleftrightarrow>
     (\<forall>scores. length (softmax scores) = length scores \<and>
        (\<forall>q \<in> set (softmax scores). 0 \<le> q) \<and>
        (scores \<noteq> [] \<longrightarrow> (\<exists>q \<in> set (softmax scores). 0 < q)))"

definition top_k :: nat where
  "top_k = 5"

definition topk :: "tie_order \<Rightarrow> nat \<Rightarrow> real list \<Rightarrow> error + (real list \<times> nat list)" where
  "topk ties k p =
     (if length p < k then Inl TopkOutOfRange
      else let ranked = take k (sort_key (\<lambda>(i, x). (- x, ties p i)) (enumerate 0 p))
           in Inr (map snd ranked, map fst ranked))"

text \<open>
  \<open>np.random.choice(a, p=p)\<close> with the uniform draw \<open>u\<close> from \<open>[0, 1)\<close> made explicit:
  it rejects probabilities that are not numbers or negative, builds the cumulative sums,
  divides them by the last one and returns the entry of \<open>a\<close> at the position where \<open>u\<close>
  would be inserted to the right. Its argument \<open>p/p.sum()\<close> is \<open>None\<close> when the sum is
  zero: the quotients are then not numbers. The quotients by a sum that is not zero sum to
  one, so the call's check of that sum is left out; \<open>generate\<close> calls it with the
  \<open>top_k\<close> entries of \<open>topk\<close>, never with an empty list.
\<close>

fun cumsum :: "real \<Rightarrow> real list \<Rightarrow> real list" where
  "cumsum acc [] = []"
| "cumsum acc (x # xs) = (acc + x) # cumsum (acc + x) xs"

definition renormalise :: "real list \<Rightarrow> real list option" where
  "renormalise p = (if sum_list p = 0 then None else Some (map (\<lambda>x. x / sum_list p) p))"

definition searchsorted_right :: "real list \<Rightarrow> real \<Rightarrow> nat" where
  "searchsorted_right cdf u = length (filter (\<lambda>c. c \<le> u) cdf)"

definition random_choice :: "real \<Rightarrow> nat list \<Rightarrow> real list option \<Rightarrow> error + nat" where
  "random_choice u a p_opt =
     (case p_opt of
        None \<Rightarrow> Inl ProbabilitiesNaN
      | Some p \<Rightarrow>
          if list_ex (\<lambda>x. x < 0) p then Inl ProbabilitiesNegative
          else let cdf = cumsum 0 p;
                   cdf = map (\<lambda>c. c / last cdf) cdf;
                   idx = searchsorted_right cdf u
               in if idx < length a then Inr (a ! idx) else Inl IndexError)"

record gen_state =
  current_seq :: "nat list"
  predicted :: "string list"

definition sample_word ::
  "tie_order \<Rightarrow> (real list \<Rightarrow> real list) \<Rightarrow> predictor \<Rightarrow> real \<Rightarrow> nat list \<Rightarrow> error + nat" where
  "sample_word ties softmax rnn u cur =
     (let output = rnn cur;
          p = softmax output
      in case topk ties top_k p of
           Inl e \<Rightarrow> Inl e
         | Inr (p, top_i) \<Rightarrow> random_choice u top_i (renormalise p))"

text \<open>One pass of the loop body of \<open>generate\<close>, with the uniform draw of that pass.\<close>

definition gen_step ::
  "tie_order \<Rightarrow> (real list \<Rightarrow> real list) \<Rightarrow> predictor \<Rightarrow> (nat \<rightharpoonup> string) \<Rightarrow> real \<Rightarrow>
     gen_state \<Rightarrow> error + gen_state" where
  "gen_step ties softmax rnn int_to_vocab u st =
     (case sample_word ties softmax rnn u (current_seq st) of
        Inl e \<Rightarrow> Inl e
      | Inr word_i \<Rightarrow>
          (case int_to_vocab word_i of
             None \<Rightarrow> Inl KeyError
           | Some word \<Rightarrow>
               if current_seq st = [] then Inl IndexError
               else Inr \<lparr>current_seq =
                          (rotate1 (current_seq st))[length (current_seq st) - 1 := word_i],
                        predicted = predicted st @ [word]\<rparr>))"

fun gen_loop ::
  "tie_order \<Rightarrow> (real list \<Rightarrow> real list) \<Rightarrow> predictor \<Rightarrow> (nat \<rightharpoonup> string) \<Rightarrow> (nat \<Rightarrow> real) \<Rightarrow>
     nat \<Rightarrow> nat \<Rightarrow> gen_state \<Rightarrow> error + gen_state" where
  "gen_loop ties softmax rnn int_to_vocab rnd i 0 st = Inr st"
| "gen_loop ties softmax rnn int_to_vocab rnd i (Suc n) st =
     (case gen_step ties softmax rnn int_to_vocab (rnd i) st of
        Inl e \<Rightarrow> Inl e
      | Inr st' \<Rightarrow> gen_loop ties softmax rnn int_to_vocab rnd (Suc i) n st')"

text \<open>
  The state of \<open>generate\<close> when its loop ends. \<open>sequence_length\<close> is the global the
  function reads; \<open>rnd i\<close> is the uniform draw of pass \<open>i\<close>. The window is an array of
  64-bit signed integers: \<open>np.full\<close> with a pad id of \<open>2 ^ 63\<close> or more, and the write of
  a prime id of \<open>2 ^ 63\<close> or more, fail. The ids the loop writes are indices of the
  probabilities and need no such check.
\<close>

definition generate_state ::
  "tie_order \<Rightarrow> (real list \<Rightarrow> real list) \<Rightarrow> predictor \<Rightarrow> (nat \<Rightarrow> real) \<Rightarrow> nat \<Rightarrow> nat \<Rightarrow>
     (nat \<rightharpoonup> string) \<Rightarrow> nat \<Rightarrow> nat \<Rightarrow> error + gen_state" where
  "generate_state ties softmax rnn rnd sequence_length prime_id int_to_vocab pad_value predict_len =
     (if 9223372036854775808 \<le> pad_value then Inl OverflowError
      else if sequence_length = 0 then Inl IndexError
      else if 9223372036854775808 \<le> prime_id then Inl OverflowError
      else case int_to_vocab prime_id of
             None \<Rightarrow> Inl KeyError
           | Some word \<Rightarrow>
               gen_loop ties softmax rnn int_to_vocab rnd 0 predict_len
                 \<lparr>current_seq = (replicate sequence_length pad_value)[sequence_length - 1 := prime_id],
                  predicted = [word]\<rparr>)"

text \<open>The end of \<open>generate\<close>: from the predicted words to the returned text.\<close>

definition gen_sentences :: "string list \<Rightarrow> str_dict \<Rightarrow> string" where
  "gen_sentences predicted_words token_dict =
     (let g = join '' '' predicted_words;
          g = fold (\<lambda>(key, token) g. replace ('' '' @ lower token) key g) token_dict g;
          g = replace [CHR 0x0A, CHR '' ''] [CHR 0x0A] g;
          g = replace ''( '' ''('' g
      in g)"

definition generate ::
  "tie_order \<Rightarrow> (real list \<Rightarrow> real list) \<Rightarrow> predictor \<Rightarrow> (nat \<Rightarrow> real) \<Rightarrow> nat \<Rightarrow> nat \<Rightarrow>
     (nat \<rightharpoonup> string) \<Rightarrow> str_dict \<Rightarrow> nat \<Rightarrow> nat \<Rightarrow> error + string" where
  "generate ties softmax rnn rnd sequence_length prime_id int_to_vocab token_dict pad_value predict_len =
     (case generate_state ties softmax rnn rnd sequence_length prime_id int_to_vocab pad_value
             predict_len of
        Inl e \<Rightarrow> Inl e
      | Inr st \<Rightarrow> Inr (gen_sentences (predicted st) token_dict))"

section \<open>Reference definitions and test data\<close>

text \<open>
  The detokenization as the specification words it: the tokens joined with single spaces,
  every entry's lower-cased placeholder with a space before it replaced by the entry's
  punctuation, then the space after a newline and after a left parenthesis removed.
\<close>

fun drop_space_after :: "char \<Rightarrow> string \<Rightarrow> string" where
  "drop_space_after c (x # y # zs) =
     (if x = c \<and> y = CHR '' '' then x # drop_space_after c zs
      else x # drop_space_after c (y # zs))"
| "drop_space_after c s = s"

definition join_with_spaces :: "string list \<Rightarrow> string" where
  "join_with_spaces tokens =
     (case tokens of [] \<Rightarrow> [] | t # ts \<Rightarrow> t @ concat (map (\<lambda>w. CHR '' '' # w) ts))"

definition detokenize_spec :: "string list \<Rightarrow> str_dict \<Rightarrow> string" where
  "detokenize_spec tokens punctuation_map =
     (let joined = join_with_spaces tokens;
          replaced = fold (\<lambda>(punctuation, placeholder) t.
                             replace (CHR '' '' # lower placeholder) punctuation t)
                       punctuation_map joined
      in drop_space_after CHR ''('' (drop_space_after (CHR 0x0A) replaced))"

text \<open>
  A punctuation map, as the specification has it, is keyed by punctuation: its keys are
  not empty and hold neither a space nor a lower-case letter (a character that \<open>lower\<close>
  makes of another one). \<open>key_chars\<close> are the characters of its keys.
\<close>

definition is_lower_letter :: "char \<Rightarrow> bool" where
  "is_lower_letter c =
     (let n = (of_char c :: nat)
      in (97 \<le> n \<and> n \<le> 122) \<or> (224 \<le> n \<and> n \<le> 254 \<and> n \<noteq> 247))"

definition punctuation_map :: "str_dict \<Rightarrow> bool" where
  "punctuation_map P \<longleftrightarrow>
     (\<forall>(k, v) \<in> set P. k \<noteq> [] \<and> (\<forall>c \<in> set k. c \<noteq> CHR '' '' \<and> \<not> is_lower_letter c))"

definition key_chars :: "str_dict \<Rightarrow> char set" where
  "key_chars P = set (concat (map fst P))"

text \<open>
  The data of the end-to-end scenario: the vocabulary of four tokens, and networks that
  answer every window alike, with a score for \<open>cat\<close> far above the others.
  \<open>saturated_softmax\<close> is what \<open>F.softmax\<close> returns in floating point on scores that are
  equal or that far apart: the largest scores share the probability 1, the others have 0.
  \<open>index_order\<close> ranks equal entries by their index. \<open>one_hot_cat p\<close> says that \<open>p\<close> has at
  least five entries, 1 at id 2 and 0 at every other id.
\<close>

definition scenario_int_to_vocab :: "nat \<rightharpoonup> string" where
  "scenario_int_to_vocab = [0 \<mapsto> ''<PAD>'', 1 \<mapsto> ''the'', 2 \<mapsto> ''cat'', 3 \<mapsto> ''sat'']"

definition stub_vocabulary_size :: predictor where
  "stub_vocabulary_size window = [0, 0, 1000, 0]"

definition stub_five :: predictor where
  "stub_five window = [0, 0, 1000, 0, 0]"

definition saturated_softmax :: "real list \<Rightarrow> real list" where
  "saturated_softmax scores =
     (case scores of
        [] \<Rightarrow> []
      | x # xs \<Rightarrow>
          (let m = fold max xs x;
               c = length (filter (\<lambda>y. y = m) scores)
           in map (\<lambda>y. if y = m then 1 / real c else 0) scores))"

definition index_order :: tie_order where
  "index_order p i = i"

definition draw_half :: "nat \<Rightarrow> real" where
  "draw_half i = 1 / 2"

definition one_hot_cat :: "real list \<Rightarrow> bool" where
  "one_hot_cat p \<longleftrightarrow> 5 \<le> length p \<and> (\<forall>i < length p. p ! i = (if i = 2 then 1 else 0))"

text \<open>
  The two measures of the id order: the count of a token with the one increment of the
  padding token, and the position at which the counter first meets a token, the increment
  of the padding token coming after the tokens of the list.
\<close>

definition frequency :: "string list \<Rightarrow> string \<Rightarrow> nat" where
  "frequency tokens w = count_list tokens w + (if w = PAD then 1 else 0)"

definition first_encounter :: "string list \<Rightarrow> string \<Rightarrow> nat" where
  "first_encounter tokens w = length (takeWhile (\<lambda>x. x \<noteq> w) (tokens @ [PAD]))"

section \<open>The counter\<close>

lemma map_fst_counter_incr:
  "map fst (counter_incr w al) = (if w \<in> fst ` set al then map fst al else map fst al @ [w])"
  by (induction w al rule: counter_incr.induct) auto

lemma map_of_counter_incr:
  "map_of (counter_incr w al) =
     (map_of al)(w \<mapsto> (case map_of al w of None \<Rightarrow> 1 | Some cnt \<Rightarrow> cnt + 1))"
  by (induction w al rule: counter_incr.induct) (auto simp: fun_eq_iff)

lemma Counter_snoc: "Counter (xs @ [x]) = counter_incr x (Counter xs)"
  by (simp add: Counter_def)

lemma set_keys_Counter: "fst ` set (Counter xs) = set xs"
proof (induction xs rule: rev_induct)
  case Nil
  show ?case by (simp add: Counter_def)
next
  case (snoc x xs)
  have "set (map fst (Counter (xs @ [x]))) = set (xs @ [x])"
    unfolding Counter_snoc map_fst_counter_incr using snoc by auto
  then show ?case by simp
qed

lemma distinct_keys_Counter: "distinct (map fst (Counter xs))"
proof (induction xs rule: rev_induct)
  case Nil
  show ?case by (simp add: Counter_def)
next
  case (snoc x xs)
  then show ?case
    unfolding Counter_snoc map_fst_counter_incr by auto
qed

lemma map_of_Counter:
  "map_of (Counter xs) w = (if w \<in> set xs then Some (count_list xs w) else None)"
proof (induction xs rule: rev_induct)
  case Nil
  show ?case by (simp add: Counter_def)
next
  case (snoc x xs)
  then show ?case
    unfolding Counter_snoc map_of_counter_incr by auto
qed

lemma in_set_Counter_iff:
  "(w, cnt) \<in> set (Counter xs) \<longleftrightarrow> w \<in> set xs \<and> cnt = count_list xs w"
proof -
  have "(w, cnt) \<in> set (Counter xs) \<longleftrightarrow> map_of (Counter xs) w = Some cnt"
    using distinct_keys_Counter [of xs] by simp
  then show ?thesis by (auto simp: map_of_Counter)
qed

section \<open>Filtering rare tokens\<close>

lemma filter_text_eq:
  "filter_text text = filter (\<lambda>t. 3 < count_list (split text) t) (split text)"
proof -
  have "t \<in> set (map fst (filter (\<lambda>(w, cnt). cnt > 3) (Counter ts))) \<longleftrightarrow>
        t \<in> set ts \<and> 3 < count_list ts t" for t and ts :: "string list"
    by (force simp: in_set_Counter_iff)
  then show ?thesis
    unfolding filter_text_def Let_def by (auto intro: filter_cong)
qed

lemma count_list_filter:
  "count_list (filter P xs) t = (if P t then count_list xs t else 0)"
  by (induction xs) auto

text \<open>
  Claim C6. The threshold of \<open>filter_text\<close> is the constant 3. A token that occurs 3 times
  or less among the tokens of the text is absent from the result, a token that occurs
  3 + 1 times or more keeps every one of its occurrences, and the result is a subsequence
  of the tokens of the text.
\<close>

theorem filter_text_boundary:
  "(\<forall>t. count_list (split text) t \<le> 3 \<longrightarrow> t \<notin> set (filter_text text)) \<and>
   (\<forall>t. 3 + 1 \<le> count_list (split text) t \<longrightarrow>
        count_list (filter_text text) t = count_list (split text) t) \<and>
   subseq (filter_text text) (split text)"
  unfolding filter_text_eq by (auto simp: count_list_filter)

theorem filter_text_boundary_witness:
  "count_list (split ''a b a c b a a b b b c c'') ''c'' \<le> 3 \<and>
   ''c'' \<notin> set (filter_text ''a b a c b a a b b b c c'') \<and>
   3 + 1 \<le> count_list (split ''a b a c b a a b b b c c'') ''a'' \<and>
   count_list (filter_text ''a b a c b a a b b b c c'') ''a'' = 4 \<and>
   subseq (filter_text ''a b a c b a a b b b c c'') (split ''a b a c b a a b b b c c'')"
proof -
  have c: "count_list (split ''a b a c b a a b b b c c'') ''c'' \<le> 3"
    by code_simp
  have a: "count_list (split ''a b a c b a a b b b c c'') ''a'' = 4"
    by code_simp
  note b = filter_text_boundary [of "''a b a c b a a b b b c c''"]
  from b c have "''c'' \<notin> set (filter_text ''a b a c b a a b b b c c'')"
    by blast
  moreover from b have "3 + 1 \<le> count_list (split ''a b a c b a a b b b c c'') ''a'' \<longrightarrow>
      count_list (filter_text ''a b a c b a a b b b c c'') ''a'' =
      count_list (split ''a b a c b a a b b b c c'') ''a''"
    by blast
  then have "count_list (filter_text ''a b a c b a a b b b c c'') ''a'' = 4"
    by (simp add: a)
  moreover from b have "subseq (filter_text ''a b a c b a a b b b c c'') (split ''a b a c b a a b b b c c'')"
    by blast
  ultimately show ?thesis using c a by simp
qed

section \<open>The generation loop\<close>

lemma rotate1_set_last:
  "cs \<noteq> [] \<Longrightarrow> (rotate1 cs)[length cs - Suc 0 := w] = tl cs @ [w]"
  by (cases cs) simp_all

lemma gen_step_Inr:
  assumes "gen_step ties softmax rnn i2v u st = Inr st'"
  shows "\<exists>word_i word. sample_word ties softmax rnn u (current_seq st) = Inr word_i \<and>
           i2v word_i = Some word \<and>
           current_seq st' = tl (current_seq st) @ [word_i] \<and>
           predicted st' = predicted st @ [word] \<and> current_seq st \<noteq> []"
  using assms unfolding gen_step_def
  by (auto split: sum.splits option.splits if_splits simp: rotate1_set_last)

lemma gen_loop_length:
  "gen_loop ties softmax rnn i2v rnd i n st = Inr st' \<Longrightarrow>
     length (current_seq st') = length (current_seq st) \<and>
     length (predicted st') = length (predicted st) + n"
proof (induction n arbitrary: i st)
  case 0
  then show ?case by simp
next
  case (Suc n)
  from Suc.prems obtain st1 where s1: "gen_step ties softmax rnn i2v (rnd i) st = Inr st1"
    and l: "gen_loop ties softmax rnn i2v rnd (Suc i) n st1 = Inr st'"
    by (auto split: sum.splits)
  from gen_step_Inr [OF s1] have "length (current_seq st1) = length (current_seq st)"
    and "length (predicted st1) = length (predicted st) + 1"
    by (cases "current_seq st"; auto)+
  with Suc.IH [OF l] show ?case by simp
qed

text \<open>
  Claim C4. A pass of the loop that succeeds leaves the window at its length: the new
  window is the old one without its first element, with the sampled id added at the end.
  So the loop, however many passes it makes, ends with a window of the length it began with.
\<close>

theorem window_sliding:
  "(gen_step ties softmax rnn int_to_vocab u st = Inr st' \<longrightarrow>
      (\<exists>word_i. sample_word ties softmax rnn u (current_seq st) = Inr word_i \<and>
         current_seq st' = tl (current_seq st) @ [word_i] \<and>
         length (current_seq st') = length (current_seq st))) \<and>
   (gen_loop ties softmax rnn int_to_vocab rnd i n st = Inr st'' \<longrightarrow>
      length (current_seq st'') = length (current_seq st))"
proof (intro conjI impI)
  assume s: "gen_step ties softmax rnn int_to_vocab u st = Inr st'"
  from gen_step_Inr [OF s] obtain word_i where
    w: "sample_word ties softmax rnn u (current_seq st) = Inr word_i"
      "current_seq st' = tl (current_seq st) @ [word_i]" "current_seq st \<noteq> []"
    by blast
  then have "length (current_seq st') = length (current_seq st)"
    by (cases "current_seq st") simp_all
  with w show "\<exists>word_i. sample_word ties softmax rnn u (current_seq st) = Inr word_i \<and>
         current_seq st' = tl (current_seq st) @ [word_i] \<and>
         length (current_seq st') = length (current_seq st)"
    by blast
next
  assume "gen_loop ties softmax rnn int_to_vocab rnd i n st = Inr st''"
  then show "length (current_seq st'') = length (current_seq st)"
    by (simp add: gen_loop_length)
qed

theorem window_sliding_witness:
  "gen_step index_order saturated_softmax stub_five scenario_int_to_vocab (1 / 2)
       \<lparr>current_seq = [0, 0, 0, 1], predicted = [''the'']\<rparr>
     = Inr \<lparr>current_seq = [0, 0, 1, 2], predicted = [''the'', ''cat'']\<rparr> \<and>
   (\<exists>word_i. sample_word index_order saturated_softmax stub_five (1 / 2) [0, 0, 0, 1] = Inr word_i \<and>
      [0, 0, 1, 2] = tl [0, 0, 0, 1] @ [word_i]) \<and>
   gen_loop index_order saturated_softmax stub_five scenario_int_to_vocab draw_half 0 2
       \<lparr>current_seq = [0, 0, 0, 1], predicted = [''the'']\<rparr>
     = Inr \<lparr>current_seq = [0, 1, 2, 2], predicted = [''the'', ''cat'', ''cat'']\<rparr> \<and>
   length [0, 1, 2, 2 :: nat] = length [0, 0, 0, 1 :: nat]"
proof -
  have s: "gen_step index_order saturated_softmax stub_five scenario_int_to_vocab (1 / 2)
       \<lparr>current_seq = [0, 0, 0, 1], predicted = [''the'']\<rparr>
     = Inr \<lparr>current_seq = [0, 0, 1, 2], predicted = [''the'', ''cat'']\<rparr>"
    by code_simp
  have l: "gen_loop index_order saturated_softmax stub_five scenario_int_to_vocab draw_half 0 2
       \<lparr>current_seq = [0, 0, 0, 1], predicted = [''the'']\<rparr>
     = Inr \<lparr>current_seq = [0, 1, 2, 2], predicted = [''the'', ''cat'', ''cat'']\<rparr>"
    by code_simp
  from window_sliding [of index_order saturated_softmax stub_five scenario_int_to_vocab "1 / 2"
      "\<lparr>current_seq = [0, 0, 0, 1], predicted = [''the'']\<rparr>"
      "\<lparr>current_seq = [0, 0, 1, 2], predicted = [''the'', ''cat'']\<rparr>"
      draw_half 0 2
      "\<lparr>current_seq = [0, 1, 2, 2], predicted = [''the'', ''cat'', ''cat'']\<rparr>"] s l
  show ?thesis by simp
qed


section \<open>The end-to-end scenario\<close>

lemma generate_state_scenario:
  "generate_state ties softmax rnn rnd 4 1 scenario_int_to_vocab 0 predict_len =
     gen_loop ties softmax rnn scenario_int_to_vocab rnd 0 predict_len
       \<lparr>current_seq = [0, 0, 0, 1], predicted = [''the'']\<rparr>"
proof -
  have "(replicate 4 (0::nat))[4 - 1 := 1] = [0, 0, 0, 1]"
    by (simp add: numeral_eq_Suc)
  then show ?thesis
    by (simp add: generate_state_def scenario_int_to_vocab_def)
qed

lemma one_hot_stub_five: "one_hot_cat (saturated_softmax (stub_five w))"
  unfolding one_hot_cat_def stub_five_def saturated_softmax_def
  by (simp add: nth_Cons')

lemma one_hot_cat_top:
  assumes "one_hot_cat p"
  shows "\<exists>rest. topk ties top_k p = Inr ([1, 0, 0, 0, 0], 2 # rest)"
proof -
  let ?f = "\<lambda>(i, x). (- x, ties p i)"
  define ys where "ys = sort_key ?f (enumerate 0 p)"
  have len: "5 \<le> length p" and val: "\<And>i. i < length p \<Longrightarrow> p ! i = (if i = 2 then 1 else 0)"
    using assms by (simp_all add: one_hot_cat_def)
  have set_ys: "set ys = set (enumerate 0 p)" and len_ys: "length ys = length p"
    and dist: "distinct ys" and srt: "sorted (map ?f ys)"
    by (simp_all add: ys_def distinct_enumerate)
  have mem: "(i, x) \<in> set ys \<longleftrightarrow> i < length p \<and> x = (if i = 2 then 1 else 0)" for i x
    using val by (auto simp: set_ys in_set_enumerate_eq)
  from len len_ys obtain y ys' where ys: "ys = y # ys'" and len': "4 \<le> length ys'"
    by (cases ys) auto
  have cat: "(2, 1) \<in> set ys"
    using len by (simp add: mem)
  have y: "y = (2, 1)"
  proof (rule ccontr)
    assume n: "y \<noteq> (2, 1)"
    obtain i x where ix: "y = (i, x)" by (cases y)
    have "(i, x) \<in> set ys" by (simp add: ys ix)
    with n ix have x: "x = 0" by (auto simp: mem split: if_splits)
    from cat n ys have "(2, 1) \<in> set ys'" by auto
    with srt ys have "?f y \<le> ?f (2, 1)" by auto
    with ix x show False by simp
  qed
  have rest: "snd z = 0" if "z \<in> set ys'" for z
  proof -
    obtain i x where ix: "z = (i, x)" by (cases z)
    from that dist ys y have "z \<noteq> (2, 1)" by auto
    moreover from that ys have "(i, x) \<in> set ys" by (simp add: ix)
    ultimately show ?thesis using ix by (auto simp: mem split: if_splits)
  qed
  have "map snd (take 4 ys') = replicate 4 0"
  proof (rule replicate_eqI)
    show "length (map snd (take 4 ys')) = 4" using len' by simp
  next
    fix v assume "v \<in> set (map snd (take 4 ys'))"
    then obtain z where "z \<in> set (take 4 ys')" "v = snd z" by auto
    then show "v = 0" using rest [of z] by (auto dest: in_set_takeD)
  qed
  then have "map snd (take 5 ys) = [1, 0, 0, 0, 0]"
    by (simp add: ys y numeral_eq_Suc)
  moreover have "map fst (take 5 ys) = 2 # map fst (take 4 ys')"
    by (simp add: ys y numeral_eq_Suc)
  moreover have "\<not> length p < 5" using len by simp
  ultimately show ?thesis
    by (simp add: topk_def top_k_def ys_def [symmetric])
qed

lemma sample_one_hot_cat:
  assumes "one_hot_cat (softmax (rnn cur))" and "u < 1"
  shows "sample_word ties softmax rnn u cur = Inr 2"
proof -
  from one_hot_cat_top [OF assms(1), of ties] obtain rest where
    "topk ties top_k (softmax (rnn cur)) = Inr ([1, 0, 0, 0, 0], 2 # rest)"
    by blast
  with assms(2) show ?thesis
    by (simp add: sample_word_def random_choice_def renormalise_def searchsorted_right_def)
qed

text \<open>
  Claim C1, as the code has it. \<open>generate\<close> takes the five most probable ids, a constant of
  the code. With the vocabulary of the scenario, window length 4, prime token \<open>the\<close> and
  two passes, a predictor that gives at least five probabilities, 1 on id 2 and 0 on every
  other id, and draws below 1, the loop ends with the words \<open>the cat cat\<close> and the window
  \<open>[0, 1, 2, 2]\<close>, in whatever order the library returns equal probabilities; with no
  pass, the window is the pad id three times and then the id of \<open>the\<close>.
\<close>

theorem scenario_generate:
  assumes "\<forall>window. one_hot_cat (softmax (rnn window))" and "\<forall>i. rnd i < 1"
  shows "generate_state ties softmax rnn rnd 4 1 scenario_int_to_vocab 0 2
           = Inr \<lparr>current_seq = [0, 1, 2, 2], predicted = [''the'', ''cat'', ''cat'']\<rparr> \<and>
         generate_state ties softmax rnn rnd 4 1 scenario_int_to_vocab 0 0
           = Inr \<lparr>current_seq = [0, 0, 0, 1], predicted = [''the'']\<rparr>"
proof -
  have s: "sample_word ties softmax rnn (rnd i) cur = Inr 2" for i cur
    using assms by (simp add: sample_one_hot_cat)
  have two: "(2::nat) = Suc (Suc 0)" by simp
  have "gen_loop ties softmax rnn scenario_int_to_vocab rnd 0 2
          \<lparr>current_seq = [0, 0, 0, 1], predicted = [''the'']\<rparr>
           = Inr \<lparr>current_seq = [0, 1, 2, 2], predicted = [''the'', ''cat'', ''cat'']\<rparr>"
    unfolding two by (simp add: gen_step_def s scenario_int_to_vocab_def)
  then have after: "generate_state ties softmax rnn rnd 4 1 scenario_int_to_vocab 0 2
           = Inr \<lparr>current_seq = [0, 1, 2, 2], predicted = [''the'', ''cat'', ''cat'']\<rparr>"
    by (simp only: generate_state_scenario)
  have "gen_loop ties softmax rnn scenario_int_to_vocab rnd 0 0
          \<lparr>current_seq = [0, 0, 0, 1], predicted = [''the'']\<rparr>
           = Inr \<lparr>current_seq = [0, 0, 0, 1], predicted = [''the'']\<rparr>"
    by simp
  then have before: "generate_state ties softmax rnn rnd 4 1 scenario_int_to_vocab 0 0
           = Inr \<lparr>current_seq = [0, 0, 0, 1], predicted = [''the'']\<rparr>"
    by (simp only: generate_state_scenario)
  from after before show ?thesis ..
qed

theorem scenario_generate_witness:
  "(\<forall>window. one_hot_cat (saturated_softmax (stub_five window))) \<and> (\<forall>i. draw_half i < 1) \<and>
   generate_state index_order saturated_softmax stub_five draw_half 4 1 scenario_int_to_vocab 0 2
     = Inr \<lparr>current_seq = [0, 1, 2, 2], predicted = [''the'', ''cat'', ''cat'']\<rparr>"
proof -
  have a: "\<forall>window. one_hot_cat (saturated_softmax (stub_five window))"
    by (simp add: one_hot_stub_five)
  have b: "\<forall>i. draw_half i < 1"
    by (simp add: draw_half_def)
  from scenario_generate [where softmax = saturated_softmax and rnn = stub_five
      and rnd = draw_half and ties = index_order, OF a b] a b
  show ?thesis by simp
qed

text \<open>
  The scenario as the claim has it: the predictor answers with one probability for each of
  the four ids of the vocabulary, and \<open>generate\<close> fails when it asks for the five largest.
\<close>

theorem scenario_counterexample:
  "generate_state index_order saturated_softmax stub_vocabulary_size draw_half 4 1
     scenario_int_to_vocab 0 2 = Inl TopkOutOfRange"
proof -
  have "gen_loop index_order saturated_softmax stub_vocabulary_size scenario_int_to_vocab
      draw_half 0 2 \<lparr>current_seq = [0, 0, 0, 1], predicted = [''the'']\<rparr> = Inl TopkOutOfRange"
    by code_simp
  then show ?thesis by (simp only: generate_state_scenario)
qed

section \<open>The sum of the largest probabilities\<close>

text \<open>
  \<open>generate\<close> divides the probabilities it keeps by their sum. The probabilities come from
  \<open>softmax\<close>: none is negative and one at least is positive, and the largest are kept, so
  that sum is positive and a pass never ends with probabilities that are not numbers.
\<close>

lemma top_k_sum_positive:
  assumes "softmax_like softmax"
    and "topk ties top_k (softmax (rnn cur)) = Inr (p, top_i)"
  shows "0 < sum_list p"
proof -
  define q where "q = softmax (rnn cur)"
  let ?f = "\<lambda>(i, x). (- x, ties q i)"
  define ys where "ys = sort_key ?f (enumerate 0 q)"
  from assms(2) have len: "5 \<le> length q" and p: "p = map snd (take 5 ys)"
    by (auto simp: topk_def top_k_def q_def ys_def Let_def split: if_splits)
  have nonneg: "0 \<le> x" if "x \<in> set q" for x
    using assms(1) that unfolding softmax_like_def q_def by blast
  have "rnn cur \<noteq> []"
  proof
    assume "rnn cur = []"
    moreover have "length q = length (rnn cur)"
      using assms(1) unfolding softmax_like_def q_def by blast
    ultimately show False using len by simp
  qed
  then obtain b where b: "b \<in> set q" "0 < b"
    using assms(1) unfolding softmax_like_def q_def by blast
  then obtain j where j: "j < length q" "q ! j = b"
    by (auto simp: in_set_conv_nth)
  have set_ys: "set ys = set (enumerate 0 q)" and len_ys: "length ys = length q"
    and srt: "sorted (map ?f ys)"
    by (simp_all add: ys_def)
  from len len_ys obtain y ys' where ys: "ys = y # ys'"
    by (cases ys) auto
  obtain i x where ix: "y = (i, x)" by (cases y)
  have "(j, b) \<in> set ys"
    using j by (simp add: set_ys in_set_enumerate_eq)
  with srt ys have "?f y \<le> ?f (j, b)" by auto
  with ix have "b \<le> x" by (auto simp: less_eq_prod_def)
  with b have x: "0 < x" by simp
  have "0 \<le> v" if "v \<in> set (map snd (take 4 ys'))" for v
  proof -
    from that obtain z where "z \<in> set ys'" "v = snd z"
      by (auto dest: in_set_takeD)
    then have "(fst z, v) \<in> set (enumerate 0 q)"
      using set_ys ys by auto
    then have "v \<in> set q" by (auto simp: in_set_enumerate_eq)
    then show ?thesis by (rule nonneg)
  qed
  then have "0 \<le> sum_list (map snd (take 4 ys'))"
    by (rule sum_list_nonneg)
  moreover have "p = x # map snd (take 4 ys')"
    by (simp add: p ys ix numeral_eq_Suc)
  ultimately show ?thesis using x by simp
qed

lemma sample_word_is_number:
  assumes "softmax_like softmax"
  shows "sample_word ties softmax rnn u cur \<noteq> Inl ProbabilitiesNaN"
proof (cases "topk ties top_k (softmax (rnn cur))")
  case (Inl e)
  then have "e = TopkOutOfRange"
    by (auto simp: topk_def Let_def split: if_splits)
  with Inl show ?thesis by (simp add: sample_word_def)
next
  case (Inr r)
  obtain p top_i where r: "r = (p, top_i)" by (cases r)
  with Inr assms have "0 < sum_list p" by (simp add: top_k_sum_positive)
  with Inr r show ?thesis
    by (simp add: sample_word_def renormalise_def random_choice_def Let_def)
qed

section \<open>Detokenization\<close>

lemma join_Cons: "join sep (w # ws) = w @ concat (map (\<lambda>v. sep @ v) ws)"
  by (induction ws arbitrary: w) simp_all

lemma join_space_eq: "join '' '' ws = join_with_spaces ws"
  by (cases ws) (simp_all add: join_with_spaces_def join_Cons)

lemma replace_pair_eq: "replace [c, CHR '' ''] [c] s = drop_space_after c s"
proof -
  have "replace_scan [c, CHR '' ''] [c] s = drop_space_after c s"
    by (induction c s rule: drop_space_after.induct) auto
  then show ?thesis by (simp add: replace_def)
qed

text \<open>
  Claim C2. For every list of tokens and every punctuation map, the text \<open>generate\<close> makes
  of its predicted words is the detokenization of the specification, and \<open>generate\<close>
  returns that text for the words its loop ends with.
\<close>

theorem detokenization_contract:
  "gen_sentences tokens token_dict = detokenize_spec tokens token_dict \<and>
   generate ties softmax rnn rnd sequence_length prime_id int_to_vocab token_dict pad_value
       predict_len =
     (case generate_state ties softmax rnn rnd sequence_length prime_id int_to_vocab pad_value
             predict_len of
        Inl e \<Rightarrow> Inl e
      | Inr st \<Rightarrow> Inr (detokenize_spec (predicted st) token_dict))"
proof -
  have "gen_sentences ts d = detokenize_spec ts d" for ts d
    unfolding gen_sentences_def detokenize_spec_def Let_def
    by (simp add: join_space_eq replace_pair_eq)
  then show ?thesis by (simp add: generate_def split: sum.splits)
qed

theorem detokenization_contract_witness:
  "gen_sentences [''there'', ''<period>'', ''and'', ''<left_paren>'', ''x'']
       [(''.'', ''<PERIOD>''), (''('', ''<LEFT_PAREN>'')]
     = detokenize_spec [''there'', ''<period>'', ''and'', ''<left_paren>'', ''x'']
         [(''.'', ''<PERIOD>''), (''('', ''<LEFT_PAREN>'')] \<and>
   detokenize_spec [''there'', ''<period>'', ''and'', ''<left_paren>'', ''x'']
       [(''.'', ''<PERIOD>''), (''('', ''<LEFT_PAREN>'')] = ''there. and(x''"
proof -
  have "detokenize_spec [''there'', ''<period>'', ''and'', ''<left_paren>'', ''x'']
       [(''.'', ''<PERIOD>''), (''('', ''<LEFT_PAREN>'')] = ''there. and(x''"
    by code_simp
  with detokenization_contract [of "[''there'', ''<period>'', ''and'', ''<left_paren>'', ''x'']"
      "[(''.'', ''<PERIOD>''), (''('', ''<LEFT_PAREN>'')]"]
  show ?thesis by simp
qed

section \<open>Replacement\<close>

lemma replace_scan_absent:
  "c \<in> set old \<Longrightarrow> c \<notin> set text \<Longrightarrow> replace_scan old new text = text"
proof (induction old new "text" rule: replace_scan.induct)
  case (1 old new)
  show ?case by simp
next
  case (2 old new x xs)
  have "take (length old) (x # xs) \<noteq> old"
  proof
    assume "take (length old) (x # xs) = old"
    then have "set old \<subseteq> set (x # xs)" by (metis set_take_subset)
    with "2.prems" show False by auto
  qed
  with 2 show ?case by simp
qed

lemma replace_absent: "c \<in> set old \<Longrightarrow> c \<notin> set text \<Longrightarrow> replace old new text = text"
  by (auto simp: replace_def replace_scan_absent)

lemma set_replace_scan: "set (replace_scan old new text) \<subseteq> set text \<union> set new"
proof (induction old new "text" rule: replace_scan.induct)
  case (1 old new)
  show ?case by simp
next
  case (2 old new x xs)
  have "set (drop (length old - 1) xs) \<subseteq> set xs" by (rule set_drop_subset)
  with 2 show ?case by (auto split: if_splits)
qed

lemma set_replace: "set (replace old new text) \<subseteq> set text \<union> set new"
  using set_replace_scan [of old new "text"] by (auto simp: replace_def)

lemma notin_replace: "c \<notin> set text \<Longrightarrow> c \<notin> set new \<Longrightarrow> c \<notin> set (replace old new text)"
  using set_replace [of old new "text"] by auto

lemma replace_char_gone: "c \<notin> set new \<Longrightarrow> c \<notin> set (replace [c] new text)"
proof -
  assume n: "c \<notin> set new"
  have "c \<notin> set (replace_scan [c] new text)"
    using n by (induction "text") auto
  then show ?thesis by (simp add: replace_def)
qed

text \<open>
  Claim C10. The entry \<open>???\<close> of \<open>token_lookup\<close> never fires: cleaning with the whole map
  and cleaning with the map without that entry give the same text. The entry \<open>?\<close> comes
  earlier and leaves no question mark, and no placeholder between the two brings one back.
\<close>

theorem dead_triple_question_mark:
  "clean_text text token_lookup = clean_text text (filter (\<lambda>(k, v). k \<noteq> ''???'') token_lookup)"
proof -
  define t3 where "t3 = replace ''?'' '' <QUESTION_MARK> ''
     (replace ''!'' '' <EXCLAMATION_MARK> '' (replace ''.'' '' <PERIOD> '' text))"
  define t9 where "t9 = replace ''-'' '' <DASH> '' (replace '')'' '' <RIGHT_PAREN> ''
     (replace ''('' '' <LEFT_PAREN> '' (replace '';'' '' <SEMICOLON> ''
     (replace [CHR 0x22] '' <QUOTATION_MARK> '' (replace '','' '' <COMMA> '' t3)))))"
  have "CHR ''?'' \<notin> set t3"
    unfolding t3_def by (rule replace_char_gone) simp
  then have "CHR ''?'' \<notin> set t9"
    unfolding t9_def by (intro notin_replace) simp_all
  then have dead: "replace ''???'' '' <DASH> '' t9 = t9"
    by (intro replace_absent [where c = "CHR ''?''"]) simp_all
  have "replace_all token_lookup text = replace [CHR 0x0A] '' <NEW_LINE> '' (replace ''???'' '' <DASH> '' t9)"
    by (simp add: replace_all_def token_lookup_def t9_def t3_def)
  moreover have "replace_all (filter (\<lambda>(k, v). k \<noteq> ''???'') token_lookup) text
      = replace [CHR 0x0A] '' <NEW_LINE> '' t9"
    by (simp add: replace_all_def token_lookup_def t9_def t3_def)
  ultimately show ?thesis by (simp add: clean_text_def dead)
qed

theorem dead_triple_question_mark_witness:
  "clean_text ''What??? No-'' token_lookup
     = clean_text ''What??? No-'' (filter (\<lambda>(k, v). k \<noteq> ''???'') token_lookup) \<and>
   clean_text ''What??? No-'' token_lookup
     = ''what <question_mark> <question_mark> <question_mark> no <dash>''"
proof -
  have "clean_text ''What??? No-'' token_lookup
     = ''what <question_mark> <question_mark> <question_mark> no <dash>''"
    by code_simp
  with dead_triple_question_mark [of "''What??? No-''"] show ?thesis by simp
qed

section \<open>Lower case, splitting and joining\<close>

lemma of_char_lower_char:
  "(of_char (lower_char c) :: nat) =
     (if (65 \<le> (of_char c :: nat) \<and> (of_char c :: nat) \<le> 90) \<or>
         (192 \<le> (of_char c :: nat) \<and> (of_char c :: nat) \<le> 222 \<and> (of_char c :: nat) \<noteq> 215)
      then of_char c + 32 else of_char c)"
  by (auto simp: lower_char_def Let_def)

lemma is_space_lower_char: "is_space (lower_char c) = is_space c"
  unfolding is_space_def Let_def of_char_lower_char by auto

lemma lower_char_idem: "lower_char (lower_char c) = lower_char c"
proof -
  have "\<not> ((65 \<le> (of_char (lower_char c) :: nat) \<and> (of_char (lower_char c) :: nat) \<le> 90) \<or>
         (192 \<le> (of_char (lower_char c) :: nat) \<and> (of_char (lower_char c) :: nat) \<le> 222
            \<and> (of_char (lower_char c) :: nat) \<noteq> 215))"
    (is "\<not> ?upper")
    unfolding of_char_lower_char by auto
  then have "(if ?upper then char_of ((of_char (lower_char c) :: nat) + 32) else lower_char c)
      = lower_char c"
    by (rule if_not_P)
  then show ?thesis
    by (simp only: lower_char_def [of "lower_char c"] Let_def)
qed

lemma lower_char_space: "lower_char CHR '' '' = CHR '' ''"
  by (simp add: lower_char_def)

lemma lower_char_not_P: "lower_char c \<noteq> CHR ''P''"
proof
  assume "lower_char c = CHR ''P''"
  then have "(of_char (lower_char c) :: nat) = of_char CHR ''P''" by simp
  then show False
    unfolding of_char_lower_char by (auto split: if_splits)
qed

lemma set_split_scan: "w \<in> set (split_scan cur s) \<Longrightarrow> set w \<subseteq> set cur \<union> set s"
proof (induction s arbitrary: cur)
  case Nil
  then show ?case by (auto split: if_splits)
next
  case (Cons a s)
  show ?case
  proof (cases "is_space a")
    case True
    with Cons.prems have "w = cur \<or> w \<in> set (split_scan [] s)"
      by (auto split: if_splits)
    then show ?thesis
      using Cons.IH [of "[]"] by auto
  next
    case False
    with Cons.prems have "w \<in> set (split_scan (cur @ [a]) s)" by simp
    then show ?thesis
      using Cons.IH [of "cur @ [a]"] by auto
  qed
qed

lemma set_split: "w \<in> set (split s) \<Longrightarrow> set w \<subseteq> set s"
  using set_split_scan [of w "[]" s] by (simp add: split_def)

lemma PAD_not_lower: "PAD \<notin> set (split (lower s))"
proof
  assume "PAD \<in> set (split (lower s))"
  then have "set PAD \<subseteq> set (lower s)" by (rule set_split)
  then have "CHR ''P'' \<in> lower_char ` set s" by (auto simp: PAD_def lower_def)
  then obtain x where "lower_char x = CHR ''P''" by auto
  with lower_char_not_P [of x] show False by simp
qed

lemma split_scan_words:
  "w \<in> set (split_scan cur s) \<Longrightarrow> \<forall>c \<in> set cur. \<not> is_space c \<Longrightarrow>
     w \<noteq> [] \<and> (\<forall>c \<in> set w. \<not> is_space c)"
proof (induction s arbitrary: cur)
  case Nil
  then show ?case by (auto split: if_splits)
next
  case (Cons a s)
  show ?case
  proof (cases "is_space a")
    case True
    with Cons.prems(1) have "(w = cur \<and> cur \<noteq> []) \<or> w \<in> set (split_scan [] s)"
      by (auto split: if_splits)
    then show ?thesis
      using Cons.IH [of "[]"] Cons.prems(2) by auto
  next
    case False
    with Cons.prems(1) have "w \<in> set (split_scan (cur @ [a]) s)" by simp
    moreover have "\<forall>c \<in> set (cur @ [a]). \<not> is_space c"
      using False Cons.prems(2) by simp
    ultimately show ?thesis
      by (rule Cons.IH)
  qed
qed

lemma split_scan_word:
  "\<forall>c \<in> set w. \<not> is_space c \<Longrightarrow> split_scan cur (w @ s) = split_scan (cur @ w) s"
  by (induction w arbitrary: cur) auto

lemma split_join:
  assumes "\<forall>w \<in> set ws. w \<noteq> [] \<and> (\<forall>c \<in> set w. \<not> is_space c)"
  shows "split (join '' '' ws) = ws"
  using assms
proof (induction ws)
  case Nil
  show ?case by (simp add: split_def)
next
  case (Cons w ws)
  have sp: "is_space CHR '' ''" by (simp add: is_space_def)
  show ?case
  proof (cases ws)
    case Nil
    with Cons.prems show ?thesis
      using split_scan_word [of w "[]" "[]"] by (simp add: split_def)
  next
    case (Cons v vs)
    have "split_scan [] (w @ CHR '' '' # join '' '' ws) = split_scan w (CHR '' '' # join '' '' ws)"
      using split_scan_word [of w "[]" "CHR '' '' # join '' '' ws"] Cons.prems by simp
    also have "\<dots> = w # split_scan [] (join '' '' ws)"
      using Cons.prems sp by simp
    also have "\<dots> = w # ws"
      using Cons.IH Cons.prems by (simp add: split_def)
    finally show ?thesis
      using Cons by (simp add: split_def)
  qed
qed

lemma split_scan_lower:
  "split_scan (map lower_char cur) (map lower_char s) = map (map lower_char) (split_scan cur s)"
proof (induction s arbitrary: cur)
  case Nil
  show ?case by simp
next
  case (Cons a s)
  show ?case
  proof (cases "is_space a")
    case True
    then show ?thesis
      using Cons [of "[]"] by (simp add: is_space_lower_char)
  next
    case False
    then show ?thesis
      using Cons [of "cur @ [a]"] by (simp add: is_space_lower_char)
  qed
qed

lemma split_lower: "split (lower s) = map lower (split s)"
  using split_scan_lower [of "[]" s] by (simp add: split_def lower_def)

lemma join_lower: "lower (join '' '' ws) = join '' '' (map lower ws)"
  by (cases ws) (simp_all add: join_Cons lower_def lower_char_space map_concat comp_def)

lemma lower_idem: "lower (lower s) = lower s"
  by (simp add: lower_def lower_char_idem)

lemma set_join: "set (join '' '' ws) \<subseteq> insert CHR '' '' (\<Union> (set ` set ws))"
  by (cases ws) (auto simp: join_Cons)

lemma set_normalised: "set (join '' '' (split s)) \<subseteq> insert CHR '' '' (set s)"
  using set_join [of "split s"] set_split [of _ s] by blast

lemma replace_all_absent:
  "\<forall>(k, v) \<in> set P. \<exists>c \<in> set k. c \<notin> set t \<Longrightarrow> replace_all P t = t"
proof (induction P)
  case Nil
  show ?case by (simp add: replace_all_def)
next
  case (Cons e P)
  obtain k v where e: "e = (k, v)" by (cases e)
  with Cons.prems obtain c where "c \<in> set k" "c \<notin> set t" by auto
  then have "replace k v t = t" by (rule replace_absent)
  with Cons e show ?case by (simp add: replace_all_def)
qed

section \<open>Cleaning twice\<close>

text \<open>
  \<open>clean_text\<close> lower-cases the text and puts single spaces between the words, so the
  characters of a cleaned text are the lower-cased characters of the text and the space.
  When no key holds one of them, the replacements change neither the text nor the cleaned
  text.
\<close>

lemma clean_text_twice:
  assumes "\<forall>(k, v) \<in> set P. k \<noteq> [] \<and> set k \<inter> (set T \<union> lower_char ` set T \<union> {CHR '' ''}) = {}"
  shows "clean_text (clean_text T P) P = clean_text T P"
proof -
  let ?n = "join '' '' (split T)"
  have first: "replace_all P T = T"
  proof (rule replace_all_absent, clarify)
    fix k v assume "(k, v) \<in> set P"
    with assms have "k \<noteq> [] \<and> set k \<inter> (set T \<union> lower_char ` set T \<union> {CHR '' ''}) = {}"
      by fast
    then have "k \<noteq> []" and "set k \<inter> set T = {}" by auto
    then show "\<exists>c \<in> set k. c \<notin> set T" by (cases k) auto
  qed
  then have c1: "clean_text T P = lower ?n"
    by (simp add: clean_text_def)
  have chars: "set (lower ?n) \<subseteq> lower_char ` set T \<union> {CHR '' ''}"
    using set_normalised [of T] by (auto simp: lower_def lower_char_space)
  have second: "replace_all P (lower ?n) = lower ?n"
  proof (rule replace_all_absent, clarify)
    fix k v assume "(k, v) \<in> set P"
    with assms have "k \<noteq> [] \<and> set k \<inter> (set T \<union> lower_char ` set T \<union> {CHR '' ''}) = {}"
      by fast
    then have "k \<noteq> []" and "set k \<inter> (lower_char ` set T \<union> {CHR '' ''}) = {}" by auto
    with chars have "k \<noteq> []" and "set k \<inter> set (lower ?n) = {}" by auto
    then show "\<exists>c \<in> set k. c \<notin> set (lower ?n)" by (cases k) auto
  qed
  have words: "\<forall>w \<in> set (split T). w \<noteq> [] \<and> (\<forall>c \<in> set w. \<not> is_space c)"
    using split_scan_words [of _ "[]" T] by (auto simp: split_def)
  have "split (lower ?n) = map lower (split ?n)"
    by (rule split_lower)
  also have "split ?n = split T"
    by (rule split_join [OF words])
  finally have "lower (join '' '' (split (lower ?n))) = lower (lower ?n)"
    by (simp add: join_lower)
  then show ?thesis
    by (simp add: c1 clean_text_def [of "lower ?n"] second lower_idem)
qed

lemma lower_char_changes: "lower_char x \<noteq> x \<Longrightarrow> is_lower_letter (lower_char x)"
  unfolding is_lower_letter_def Let_def of_char_lower_char
  by (auto simp: lower_char_def Let_def split: if_splits)

text \<open>
  Claim C9. For every punctuation map \<open>P\<close> and every text \<open>T\<close> that has no character of
  a key of \<open>P\<close>, cleaning twice is cleaning once.
\<close>

theorem clean_text_idempotent:
  assumes "punctuation_map P" and "set T \<inter> key_chars P = {}"
  shows "clean_text (clean_text T P) P = clean_text T P"
proof (rule clean_text_twice, clarify)
  fix k v assume kv: "(k, v) \<in> set P"
  with assms(1) have k: "k \<noteq> []" and chars: "\<forall>c \<in> set k. c \<noteq> CHR '' '' \<and> \<not> is_lower_letter c"
    unfolding punctuation_map_def by fast+
  have "c \<notin> set T \<union> lower_char ` set T \<union> {CHR '' ''}" if c: "c \<in> set k" for c
  proof -
    from c kv have "c \<in> key_chars P"
      by (force simp: key_chars_def)
    with assms(2) have outside: "c \<notin> set T" by auto
    have "c \<noteq> lower_char x" if x: "x \<in> set T" for x
    proof
      assume e: "c = lower_char x"
      with outside x have "lower_char x \<noteq> x" by auto
      then have "is_lower_letter c" unfolding e by (rule lower_char_changes)
      with chars c show False by blast
    qed
    with outside chars c show ?thesis by auto
  qed
  with k show "k \<noteq> [] \<and> set k \<inter> (set T \<union> lower_char ` set T \<union> {CHR '' ''}) = {}"
    by blast
qed

theorem clean_text_idempotent_witness:
  "clean_text (clean_text ''Two  Words'' token_lookup) token_lookup = ''two words'' \<and>
   clean_text ''Two  Words'' token_lookup = ''two words''"
proof -
  have p: "punctuation_map token_lookup"
    by code_simp
  have d: "set ''Two  Words'' \<inter> key_chars token_lookup = {}"
    by code_simp
  have c: "clean_text ''Two  Words'' token_lookup = ''two words''"
    by code_simp
  from clean_text_idempotent [OF p d] c show ?thesis by simp
qed

section \<open>The lookup tables\<close>

lemma dict_of_items_map_of: "dict_of_items items = map_of (rev items)"
proof -
  have "fold (\<lambda>(k, v) m. m(k \<mapsto> v)) items m0 = m0 ++ map_of (rev items)" for m0 :: "'a \<rightharpoonup> 'b"
    by (induction items arbitrary: m0) (auto simp: map_add_def fun_eq_iff split: option.splits)
  then show ?thesis by (simp add: dict_of_items_def)
qed

lemma dict_of_items_distinct:
  assumes "distinct (map fst items)"
  shows "dict_of_items items k = Some v \<longleftrightarrow> (k, v) \<in> set items"
proof -
  have "distinct (map fst (rev items))"
    using assms by (simp add: rev_map [symmetric])
  then have "map_of (rev items) k = Some v \<longleftrightarrow> (k, v) \<in> set (rev items)"
    by (rule map_of_eq_Some_iff)
  then show ?thesis by (simp add: dict_of_items_map_of)
qed

lemma counter_with_pad: "counter_incr PAD (Counter tokens) = Counter (tokens @ [PAD])"
  by (simp add: Counter_snoc)

lemma sorted_words_eq:
  "sorted_words tokens =
     sort_key (\<lambda>w. - counter_get (Counter (tokens @ [PAD])) w) (map fst (Counter (tokens @ [PAD])))"
  by (simp add: sorted_words_def Let_def counter_with_pad)

lemma set_sorted_words: "set (sorted_words tokens) = insert PAD (set tokens)"
proof -
  have "set (map fst (Counter (tokens @ [PAD]))) = set (tokens @ [PAD])"
    using set_keys_Counter [of "tokens @ [PAD]"] by simp
  then show ?thesis by (simp add: sorted_words_eq)
qed

lemma distinct_sorted_words: "distinct (sorted_words tokens)"
  by (simp add: sorted_words_eq distinct_keys_Counter)

lemma length_sorted_words: "length (sorted_words tokens) = card (insert PAD (set tokens))"
  using distinct_card [OF distinct_sorted_words, of tokens] by (simp add: set_sorted_words)

lemma int_to_vocab_iff:
  "snd (create_lookup_tables tokens) i = Some w \<longleftrightarrow>
     i < length (sorted_words tokens) \<and> sorted_words tokens ! i = w"
proof -
  have "distinct (map fst (enumerate 0 (sorted_words tokens)))"
    by simp
  then show ?thesis
    by (auto simp: create_lookup_tables_def Let_def dict_of_items_distinct in_set_enumerate_eq)
qed

lemma vocab_to_int_iff:
  "fst (create_lookup_tables tokens) w = Some i \<longleftrightarrow>
     i < length (sorted_words tokens) \<and> sorted_words tokens ! i = w"
proof -
  have "map fst (map (\<lambda>(ii, word). (word, ii)) (enumerate 0 (sorted_words tokens)))
      = sorted_words tokens"
    by (simp add: enumerate_eq_zip split_beta comp_def)
  then have "distinct (map fst (map (\<lambda>(ii, word). (word, ii)) (enumerate 0 (sorted_words tokens))))"
    by (simp only: distinct_sorted_words)
  then show ?thesis
    by (auto simp: create_lookup_tables_def Let_def dict_of_items_distinct in_set_enumerate_eq)
qed

lemma dom_vocab_to_int: "dom (fst (create_lookup_tables tokens)) = insert PAD (set tokens)"
proof -
  have "dom (fst (create_lookup_tables tokens)) = set (sorted_words tokens)"
    by (auto simp: dom_def vocab_to_int_iff in_set_conv_nth)
  then show ?thesis by (simp add: set_sorted_words)
qed

lemma dom_int_to_vocab:
  "dom (snd (create_lookup_tables tokens)) = {0 ..< card (insert PAD (set tokens))}"
  by (auto simp: dom_def int_to_vocab_iff length_sorted_words)

lemma ran_vocab_to_int:
  "ran (fst (create_lookup_tables tokens)) = {0 ..< card (insert PAD (set tokens))}"
  by (auto simp: ran_def vocab_to_int_iff length_sorted_words)

text \<open>
  Claim C5. For every token list, every token of the vocabulary is found again under its
  id, the vocabulary is the set of the tokens with the padding token, its ids are exactly
  the numbers below the number of those tokens, and no two tokens share an id.
\<close>

theorem vocabulary_bijection:
  "(\<forall>token \<in> dom (fst (create_lookup_tables tokens)).
      \<exists>i. fst (create_lookup_tables tokens) token = Some i \<and>
          snd (create_lookup_tables tokens) i = Some token) \<and>
   dom (fst (create_lookup_tables tokens)) = insert PAD (set tokens) \<and>
   ran (fst (create_lookup_tables tokens)) = {0 ..< card (insert PAD (set tokens))} \<and>
   dom (snd (create_lookup_tables tokens)) = {0 ..< card (insert PAD (set tokens))} \<and>
   inj_on (fst (create_lookup_tables tokens)) (dom (fst (create_lookup_tables tokens)))"
proof -
  have "\<exists>i. fst (create_lookup_tables tokens) token = Some i \<and>
          snd (create_lookup_tables tokens) i = Some token"
    if "token \<in> dom (fst (create_lookup_tables tokens))" for token
    using that by (auto simp: dom_def vocab_to_int_iff int_to_vocab_iff)
  moreover have "inj_on (fst (create_lookup_tables tokens)) (dom (fst (create_lookup_tables tokens)))"
  proof (rule inj_onI)
    fix a b
    assume a: "a \<in> dom (fst (create_lookup_tables tokens))"
      and e: "fst (create_lookup_tables tokens) a = fst (create_lookup_tables tokens) b"
    from a obtain i where i: "fst (create_lookup_tables tokens) a = Some i" by auto
    with e have "fst (create_lookup_tables tokens) b = Some i" by simp
    with i show "a = b" by (auto simp: vocab_to_int_iff)
  qed
  ultimately show ?thesis
    by (simp add: dom_vocab_to_int ran_vocab_to_int dom_int_to_vocab)
qed


theorem vocabulary_bijection_witness:
  "''a'' \<in> dom (fst (create_lookup_tables [''b'', ''a'', ''b''])) \<and>
   (\<exists>i. fst (create_lookup_tables [''b'', ''a'', ''b'']) ''a'' = Some i \<and>
        snd (create_lookup_tables [''b'', ''a'', ''b'']) i = Some ''a'') \<and>
   fst (create_lookup_tables [''b'', ''a'', ''b'']) ''a'' = Some 1"
proof -
  have a: "fst (create_lookup_tables [''b'', ''a'', ''b'']) ''a'' = Some 1"
    by code_simp
  then have d: "''a'' \<in> dom (fst (create_lookup_tables [''b'', ''a'', ''b'']))"
    by (rule domI)
  from vocabulary_bijection [of "[''b'', ''a'', ''b'']"] d
  have "\<exists>i. fst (create_lookup_tables [''b'', ''a'', ''b'']) ''a'' = Some i \<and>
        snd (create_lookup_tables [''b'', ''a'', ''b'']) i = Some ''a''"
    by blast
  with a d show ?thesis by simp
qed

section \<open>The order of the ids\<close>

lemma insort_key_lex:
  assumes "sorted_wrt (\<lambda>a b. f a < f b \<or> (f a = f b \<and> S a b)) l"
    and "\<forall>y \<in> set l. S x y"
  shows "sorted_wrt (\<lambda>a b. f a < f b \<or> (f a = f b \<and> S a b)) (insort_key f x l)"
  using assms
proof (induction l)
  case Nil
  then show ?case by simp
next
  case (Cons y ys)
  show ?case
  proof (cases "f x \<le> f y")
    case True
    have "f x < f z \<or> (f x = f z \<and> S x z)" if "z \<in> set (y # ys)" for z
    proof -
      have "f y \<le> f z" using that Cons.prems(1) by auto
      with True have "f x \<le> f z" by simp
      moreover have "S x z" using that Cons.prems(2) by blast
      ultimately show ?thesis by auto
    qed
    with True Cons.prems(1) show ?thesis by simp
  next
    case False
    then have "f y < f x" by simp
    moreover have "sorted_wrt (\<lambda>a b. f a < f b \<or> (f a = f b \<and> S a b)) (insort_key f x ys)"
      using Cons by simp
    ultimately show ?thesis
      using False Cons.prems(1) by (auto simp: set_insort_key)
  qed
qed

lemma sort_key_lex:
  "sorted_wrt S l \<Longrightarrow> sorted_wrt (\<lambda>a b. f a < f b \<or> (f a = f b \<and> S a b)) (sort_key f l)"
proof (induction l)
  case Nil
  show ?case by simp
next
  case (Cons x xs)
  then have "sorted_wrt (\<lambda>a b. f a < f b \<or> (f a = f b \<and> S a b)) (sort_key f xs)"
    and "\<forall>y \<in> set (sort_key f xs). S x y"
    by simp_all
  then show ?case
    by (simp add: sort_key_simps insort_key_lex)
qed

lemma first_index_less:
  "x \<in> set xs \<Longrightarrow> length (takeWhile (\<lambda>z. z \<noteq> x) xs) < length xs"
  by (induction xs) auto

lemma first_index_new:
  "y \<notin> set ys \<Longrightarrow> takeWhile (\<lambda>z. z \<noteq> y) (ys @ [y]) = ys"
  by (induction ys) auto

lemma keys_Counter_in_order:
  "sorted_wrt (\<lambda>a b. length (takeWhile (\<lambda>z. z \<noteq> a) ys) < length (takeWhile (\<lambda>z. z \<noteq> b) ys))
     (map fst (Counter ys))"
proof (induction ys rule: rev_induct)
  case Nil
  show ?case by (simp add: Counter_def)
next
  case (snoc y ys)
  have old: "length (takeWhile (\<lambda>z. z \<noteq> a) (ys @ [y])) = length (takeWhile (\<lambda>z. z \<noteq> a) ys)"
    if "a \<in> set ys" for a
    using that by (simp add: takeWhile_append1)
  have keys: "set (map fst (Counter ys)) = set ys"
    using set_keys_Counter [of ys] by simp
  have kept: "sorted_wrt (\<lambda>a b. length (takeWhile (\<lambda>z. z \<noteq> a) (ys @ [y]))
        < length (takeWhile (\<lambda>z. z \<noteq> b) (ys @ [y]))) (map fst (Counter ys))"
    by (rule sorted_wrt_mono_rel [OF _ snoc]) (simp add: set_keys_Counter old)
  show ?case
  proof (cases "y \<in> set ys")
    case True
    then have "map fst (Counter (ys @ [y])) = map fst (Counter ys)"
      by (simp add: Counter_snoc map_fst_counter_incr set_keys_Counter)
    with kept show ?thesis by simp
  next
    case False
    then have k: "map fst (Counter (ys @ [y])) = map fst (Counter ys) @ [y]"
      by (simp add: Counter_snoc map_fst_counter_incr set_keys_Counter)
    have "length (takeWhile (\<lambda>z. z \<noteq> a) (ys @ [y])) < length (takeWhile (\<lambda>z. z \<noteq> y) (ys @ [y]))"
      if "a \<in> set (map fst (Counter ys))" for a
    proof -
      from that have a: "a \<in> set ys" by (simp only: keys)
      have "length (takeWhile (\<lambda>z. z \<noteq> a) (ys @ [y])) = length (takeWhile (\<lambda>z. z \<noteq> a) ys)"
        by (rule old [OF a])
      also have "\<dots> < length ys"
        by (rule first_index_less [OF a])
      also have "length ys = length (takeWhile (\<lambda>z. z \<noteq> y) (ys @ [y]))"
        by (simp only: first_index_new [OF False])
      finally show ?thesis .
    qed
    then have "\<forall>a \<in> set (map fst (Counter ys)). \<forall>b \<in> set [y].
        length (takeWhile (\<lambda>z. z \<noteq> a) (ys @ [y])) < length (takeWhile (\<lambda>z. z \<noteq> b) (ys @ [y]))"
      by simp
    with kept show ?thesis
      unfolding k sorted_wrt_append by simp
  qed
qed

lemma frequency_count: "frequency tokens w = count_list (tokens @ [PAD]) w"
  by (simp add: frequency_def)

lemma counter_get_frequency:
  "w \<in> insert PAD (set tokens) \<Longrightarrow>
     counter_get (Counter (tokens @ [PAD])) w = int (frequency tokens w)"
  by (auto simp: counter_get_def map_of_Counter frequency_count)

lemma sorted_words_order:
  "sorted_wrt (\<lambda>a b. frequency tokens b < frequency tokens a \<or>
       (frequency tokens a = frequency tokens b \<and>
        first_encounter tokens a < first_encounter tokens b))
     (sorted_words tokens)"
proof -
  let ?f = "\<lambda>w. - counter_get (Counter (tokens @ [PAD])) w"
  let ?S = "\<lambda>a b. first_encounter tokens a < first_encounter tokens b"
  have "sorted_wrt ?S (map fst (Counter (tokens @ [PAD])))"
    unfolding first_encounter_def by (rule keys_Counter_in_order)
  then have "sorted_wrt (\<lambda>a b. ?f a < ?f b \<or> (?f a = ?f b \<and> ?S a b)) (sorted_words tokens)"
    unfolding sorted_words_eq by (rule sort_key_lex)
  then show ?thesis
    by (rule sorted_wrt_mono_rel [rotated])
      (auto simp: set_sorted_words counter_get_frequency)
qed

text \<open>
  Claim C8. \<open>frequency\<close> is the count of a token with the increment of the padding token,
  \<open>first_encounter\<close> the position at which the counter first meets it, the padding token's
  increment coming after the tokens. Of two tokens of the vocabulary, the one with the
  lower id has the frequency of the other or more, and at equal frequency it was met first.
\<close>

theorem vocabulary_id_order:
  assumes "fst (create_lookup_tables tokens) w1 = Some i1"
    and "fst (create_lookup_tables tokens) w2 = Some i2"
    and "i1 < i2"
  shows "frequency tokens w2 \<le> frequency tokens w1 \<and>
         (frequency tokens w1 = frequency tokens w2 \<longrightarrow>
            first_encounter tokens w1 < first_encounter tokens w2)"
proof -
  from assms have "i2 < length (sorted_words tokens)"
    and "sorted_words tokens ! i1 = w1" and "sorted_words tokens ! i2 = w2"
    by (simp_all add: vocab_to_int_iff)
  with sorted_words_order [of tokens] assms(3)
  have "frequency tokens w2 < frequency tokens w1 \<or>
       (frequency tokens w1 = frequency tokens w2 \<and>
        first_encounter tokens w1 < first_encounter tokens w2)"
    by (auto simp: sorted_wrt_iff_nth_less)
  then show ?thesis by auto
qed

theorem vocabulary_id_order_witness:
  "fst (create_lookup_tables [''b'', ''a'', ''b'']) ''a'' = Some 1 \<and>
   fst (create_lookup_tables [''b'', ''a'', ''b'']) PAD = Some 2 \<and>
   (1::nat) < 2 \<and>
   frequency [''b'', ''a'', ''b''] ''a'' = frequency [''b'', ''a'', ''b''] PAD \<and>
   first_encounter [''b'', ''a'', ''b''] ''a'' < first_encounter [''b'', ''a'', ''b''] PAD"
proof -
  have a: "fst (create_lookup_tables [''b'', ''a'', ''b'']) ''a'' = Some 1"
    by code_simp
  have p: "fst (create_lookup_tables [''b'', ''a'', ''b'']) PAD = Some 2"
    by code_simp
  have l: "(1::nat) < 2"
    by simp
  have e: "frequency [''b'', ''a'', ''b''] ''a'' = frequency [''b'', ''a'', ''b''] PAD"
    by code_simp
  from vocabulary_id_order [OF a p l] e a p show ?thesis by simp
qed

section \<open>The padding token\<close>

lemma lookup_all_total: "set ws \<subseteq> dom d \<Longrightarrow> \<exists>vs. lookup_all d ws = Inr vs"
  by (induction ws) auto

lemma pad_has_id:
  "\<exists>i. fst (create_lookup_tables tokens) PAD = Some i \<and>
       i < card (dom (fst (create_lookup_tables tokens))) \<and>
       snd (create_lookup_tables tokens) i = Some PAD"
proof -
  have "PAD \<in> set (sorted_words tokens)"
    by (simp add: set_sorted_words)
  then obtain i where "i < length (sorted_words tokens)" and "sorted_words tokens ! i = PAD"
    by (auto simp: in_set_conv_nth)
  then show ?thesis
    by (auto simp: vocab_to_int_iff int_to_vocab_iff dom_vocab_to_int length_sorted_words)
qed

lemma pad_count: "map_of (counter_incr PAD (Counter tokens)) PAD = Some (count_list tokens PAD + 1)"
  by (simp add: map_of_counter_incr map_of_Counter count_list_0_iff)

lemma pad_not_in_corpus: "PAD \<notin> set (filter_text (clean_text all_text_data special_tokens_dict))"
proof -
  have "PAD \<notin> set (split (clean_text all_text_data special_tokens_dict))"
    unfolding clean_text_def by (rule PAD_not_lower)
  then show ?thesis by (simp add: filter_text_eq)
qed

text \<open>
  Claim C7. For every token list the padding token is in the vocabulary, with an id below
  the size of the vocabulary under which it is found again, and its count is that of the
  list raised by one. In \<open>preprocess_and_save_data\<close> the filter runs before the tables are
  built: the padding token is never among the filtered tokens (they are lower case), so its
  frequency there is below every threshold, and the tables the function returns hold it all
  the same. The function returns for every text.
\<close>

theorem padding_token_included:
  "(\<exists>i. fst (create_lookup_tables tokens) PAD = Some i \<and>
        i < card (dom (fst (create_lookup_tables tokens))) \<and>
        snd (create_lookup_tables tokens) i = Some PAD) \<and>
   map_of (counter_incr PAD (Counter tokens)) PAD = Some (count_list tokens PAD + 1) \<and>
   PAD \<notin> set (filter_text (clean_text all_text_data token_lookup)) \<and>
   (\<exists>int_text vocab_to_int int_to_vocab i.
      preprocess_and_save_data all_text_data
        = Inr (int_text, vocab_to_int, int_to_vocab, token_lookup) \<and>
      vocab_to_int PAD = Some i \<and> int_to_vocab i = Some PAD)"
proof -
  define corpus where "corpus = filter_text (clean_text all_text_data token_lookup)"
  have "set corpus \<subseteq> dom (fst (create_lookup_tables corpus))"
    by (auto simp: dom_vocab_to_int)
  then obtain int_text where "lookup_all (fst (create_lookup_tables corpus)) corpus = Inr int_text"
    using lookup_all_total by blast
  then have "preprocess_and_save_data all_text_data
      = Inr (int_text, fst (create_lookup_tables corpus), snd (create_lookup_tables corpus), token_lookup)"
    by (simp add: preprocess_and_save_data_def Let_def corpus_def split_beta)
  moreover from pad_has_id [of corpus] obtain i where
    "fst (create_lookup_tables corpus) PAD = Some i" "snd (create_lookup_tables corpus) i = Some PAD"
    by blast
  ultimately have "\<exists>int_text vocab_to_int int_to_vocab i.
      preprocess_and_save_data all_text_data
        = Inr (int_text, vocab_to_int, int_to_vocab, token_lookup) \<and>
      vocab_to_int PAD = Some i \<and> int_to_vocab i = Some PAD"
    by blast
  with pad_has_id [of tokens] pad_count [of tokens] pad_not_in_corpus [of all_text_data token_lookup]
  show ?thesis by blast
qed

theorem padding_token_included_witness:
  "(\<exists>i. fst (create_lookup_tables [''b'', ''a'', ''b'']) PAD = Some i \<and>
        snd (create_lookup_tables [''b'', ''a'', ''b'']) i = Some PAD) \<and>
   fst (create_lookup_tables [''b'', ''a'', ''b'']) PAD = Some 2 \<and>
   PAD \<notin> set [''b'', ''a'', ''b'']"
proof -
  have "fst (create_lookup_tables [''b'', ''a'', ''b'']) PAD = Some 2"
    by code_simp
  moreover have "PAD \<notin> set [''b'', ''a'', ''b'']"
    by code_simp
  moreover from padding_token_included [of "[''b'', ''a'', ''b'']"]
  have "\<exists>i. fst (create_lookup_tables [''b'', ''a'', ''b'']) PAD = Some i \<and>
        snd (create_lookup_tables [''b'', ''a'', ''b'']) i = Some PAD"
    by blast
  ultimately show ?thesis by simp
qed

end
